theory Spec2Isabelle
  imports Main
begin

section \<open>Data model\<close>

text \<open>
  Objects are identified by references; \<open>===\<close>, \<open>includes\<close> and \<open>indexOf\<close> of the
  source compare object identity, which is equality of references here. Topics are
  property keys, a participant id is a fresh \<open>symbol\<close>.
\<close>

type_synonym ref = nat
type_synonym topic = string
type_synonym pid = nat

datatype exn = Error string

text \<open>
  The two arrays the source shares between objects and subscriptions: the
  \<open>observers\<close> field of a \<open>TBaseObservable\<close> (and so of a \<open>TBaseMediator\<close>), and the
  \<open>mediators\<close> field of a \<open>TAbstractParticipant\<close>. A \<open>TSubscription\<close> keeps a
  reference to one of them, so the arrays live in a store addressed by \<open>arr\<close>.
\<close>

datatype arr = ObserversOf ref | MediatorsOf ref

text \<open>
  \<open>IDisposable\<close> values handed out by the source: \<open>new TSubscription(observers, observer)\<close>
  and the object literal \<open>{ get isDisposed() {...}, dispose() {...} }\<close> that
  \<open>TBaseMediator.subscribe\<close> builds from \<open>localSubscription\<close> and \<open>disposable\<close>.
\<close>

datatype disposable = TSubscription arr ref | Composite disposable disposable

text \<open>
  \<open>next\<close> and \<open>error\<close> are abstract in \<open>TAbstractObserver\<close>; \<open>complete\<close> may be
  overridden. A hook is what such a method of a receiver does when the emitter calls it:
  return, throw, dispose some disposable it holds and return, or call
  \<open>this.unsubscribe()\<close> (the body of \<open>TAbstractObserver.complete\<close>).
\<close>

datatype hook = Returns | Throws exn | Disposes disposable | Unsubscribes

datatype 'v event = NextCalled ref 'v | CompleteCalled ref | MediatorNextCalled ref pid 'v

datatype outcome = Normal | Raised exn

record 'v state =
  store :: "arr \<Rightarrow> ref list"
  subscription :: "ref \<Rightarrow> disposable option"
  trace :: "'v event list"

text \<open>
  The classes a receiver can be an instance of, with their read-only fields:
  a plain \<open>TObserver\<close> (no \<open>topics\<close>), a \<open>TSubscriber\<close> (\<open>topics\<close>), a
  \<open>TAbstractParticipant\<close> (\<open>participantId\<close>, \<open>topics\<close>) and a \<open>TBaseMediator\<close>
  (\<open>topics = []\<close>).
\<close>

datatype cls = TObserver | TSubscriber "topic list" | TParticipant pid "topic list" | TBaseMediator

record obj =
  cls :: cls
  next_hook :: hook
  complete_hook :: hook

type_synonym objects = "ref \<Rightarrow> obj"

text \<open>\<open>'topics' in observer\<close> and the value of \<open>observer.topics\<close>.\<close>

fun topics_of :: "cls \<Rightarrow> topic list option" where
  "topics_of TObserver = None"
| "topics_of (TSubscriber ts) = Some ts"
| "topics_of (TParticipant p ts) = Some ts"
| "topics_of TBaseMediator = Some []"

text \<open>\<open>'participantId' in observer\<close> and the value of \<open>observer.participantId\<close>.\<close>

fun participantId_of :: "cls \<Rightarrow> pid option" where
  "participantId_of (TParticipant p ts) = Some p"
| "participantId_of c = None"

text \<open>
  Modelled from the spec: \<open>t_base_publisher.ts\<close> is not among the sources. A
  \<open>TBaseMediator\<close> extends \<open>TBasePublisher\<close>, a pub/sub channel that extends the
  observer channel, so it has \<open>publish\<close> besides its own \<open>subscribe\<close>. The function
  is the test \<open>'subscribe' in observer && 'publish' in observer\<close> of
  \<open>TBaseMediator.subscribe\<close>: a \<open>TAbstractParticipant\<close> defines both methods, a plain
  observer or subscriber has no \<open>publish\<close>.
\<close>

fun has_subscribe_and_publish :: "cls \<Rightarrow> bool" where
  "has_subscribe_and_publish (TParticipant p ts) = True"
| "has_subscribe_and_publish TBaseMediator = True"
| "has_subscribe_and_publish c = False"

text \<open>
  The state after the constructors have run: every \<open>observers\<close> and \<open>mediators\<close>
  array is \<open>[]\<close>, no observer holds a subscription, nothing has been called.
\<close>

definition init :: "'v state" where
  "init = \<lparr>store = (\<lambda>a. []), subscription = (\<lambda>r. None), trace = []\<rparr>"

text \<open>\<open>array.push(x)\<close>.\<close>

definition push :: "arr \<Rightarrow> ref \<Rightarrow> 'v state \<Rightarrow> 'v state" where
  "push a x s = s\<lparr>store := (store s)(a := store s a @ [x])\<rparr>"

section \<open>TSubscription\<close>

text \<open>\<open>Array.prototype.indexOf\<close>: the first index holding the element, or \<open>-1\<close>.\<close>

fun indexOf_from :: "'a list \<Rightarrow> 'a \<Rightarrow> int \<Rightarrow> int" where
  "indexOf_from [] x k = - 1"
| "indexOf_from (y # ys) x k = (if y = x then k else indexOf_from ys x (k + 1))"

definition indexOf :: "'a list \<Rightarrow> 'a \<Rightarrow> int" where
  "indexOf xs x = indexOf_from xs x 0"

text \<open>\<open>xs.splice(index, 1)\<close> for an index inside the array.\<close>

definition splice1 :: "'a list \<Rightarrow> nat \<Rightarrow> 'a list" where
  "splice1 xs i = take i xs @ drop (Suc i) xs"

text \<open>
  \<open>get isDisposed() { return !observers.length; }\<close> for a \<open>TSubscription\<close>, and
  \<open>localSubscription.isDisposed && disposable.isDisposed\<close> for the composite.
\<close>

fun isDisposed :: "'v state \<Rightarrow> disposable \<Rightarrow> bool" where
  "isDisposed s (TSubscription a r) = (length (store s a) = 0)"
| "isDisposed s (Composite l d) = (isDisposed s l \<and> isDisposed s d)"

text \<open>
  \<open>dispose()\<close>: \<open>index = observers.indexOf(this.observer); if (index >= 0)
  observers.splice(index, 1)\<close>; the composite disposes the local subscription, then the
  other one.
\<close>

fun dispose :: "disposable \<Rightarrow> 'v state \<Rightarrow> 'v state" where
  "dispose (TSubscription a r) s =
     (let index = indexOf (store s a) r
      in if index \<ge> 0 then s\<lparr>store := (store s)(a := splice1 (store s a) (nat index))\<rparr> else s)"
| "dispose (Composite l d) s = dispose d (dispose l s)"

section \<open>Facts about TSubscription\<close>

lemma indexOf_from_absent: "x \<notin> set xs \<Longrightarrow> indexOf_from xs x k = - 1"
  by (induction xs arbitrary: k) auto

lemma indexOf_from_present:
  "x \<in> set xs \<Longrightarrow> 0 \<le> k \<Longrightarrow>
   k \<le> indexOf_from xs x k \<and> splice1 xs (nat (indexOf_from xs x k - k)) = remove1 x xs"
proof (induction xs arbitrary: k)
  case Nil
  then show ?case by simp
next
  case (Cons y ys)
  show ?case
  proof (cases "y = x")
    case True
    then show ?thesis by (simp add: splice1_def)
  next
    case False
    with Cons.prems have mem: "x \<in> set ys" by simp
    from Cons.prems have k1: "0 \<le> k + 1" by simp
    from Cons.IH [OF mem k1]
    have le: "k + 1 \<le> indexOf_from ys x (k + 1)"
      and sp: "splice1 ys (nat (indexOf_from ys x (k + 1) - (k + 1))) = remove1 x ys"
      by simp_all
    from le have "nat (indexOf_from ys x (k + 1) - k) = Suc (nat (indexOf_from ys x (k + 1) - (k + 1)))"
      by simp
    with False le sp show ?thesis by (simp add: splice1_def)
  qed
qed

lemma dispose_store_TSubscription:
  "store (dispose (TSubscription a r) s) = (store s)(a := remove1 r (store s a))"
proof (cases "r \<in> set (store s a)")
  case True
  from indexOf_from_present [OF True, of 0]
  show ?thesis by (simp add: indexOf_def Let_def)
next
  case False
  then have "indexOf (store s a) r = - 1"
    by (simp add: indexOf_def indexOf_from_absent)
  with False show ?thesis by (simp add: remove1_idem fun_upd_idem)
qed

lemma dispose_TSubscription_other:
  "subscription (dispose (TSubscription a r) s) = subscription s
   \<and> trace (dispose (TSubscription a r) s) = trace s"
  by (simp add: Let_def)

section \<open>TAbstractObserver and the hooks of a receiver\<close>

text \<open>
  \<open>TAbstractObserver.unsubscribe\<close>: \<open>if (subscription) subscription.dispose()\<close>, on the
  \<open>subscription\<close> field that \<open>TAbstractObserver.subscribe\<close> assigns.
\<close>

definition unsubscribe :: "ref \<Rightarrow> 'v state \<Rightarrow> 'v state" where
  "unsubscribe r s = (case subscription s r of Some d \<Rightarrow> dispose d s | None \<Rightarrow> s)"

fun run_hook :: "hook \<Rightarrow> ref \<Rightarrow> 'v state \<Rightarrow> outcome \<times> 'v state" where
  "run_hook Returns r s = (Normal, s)"
| "run_hook (Throws x) r s = (Raised x, s)"
| "run_hook (Disposes d) r s = (Normal, dispose d s)"
| "run_hook Unsubscribes r s = (Normal, unsubscribe r s)"

text \<open>
  The two calls an emitter makes on a receiver; each call is recorded in the trace
  before the receiver's own code runs. The receivers of \<open>publish\<close>, \<open>complete\<close> and of
  the mediator's routing are objects whose \<open>next\<close> and \<open>complete\<close> are hooks;
  \<open>TBaseMediator.next\<close> itself is \<open>mediator_next\<close> below, which the routing never
  calls on a registered mediator (its \<open>topics\<close> are empty) and which
  \<open>participant_publish\<close> calls. A \<open>TBaseMediator\<close> registered as a receiver of a plain
  \<open>TBaseObservable\<close>, whose \<open>next\<close> would route the value on to its own receivers, is
  outside this model: \<open>notify\<close> runs a hook for every receiver.
\<close>

datatype 'v call = CallNext 'v | CallComplete

fun hook_of :: "objects \<Rightarrow> 'v call \<Rightarrow> ref \<Rightarrow> hook" where
  "hook_of \<Gamma> (CallNext v) r = next_hook (\<Gamma> r)"
| "hook_of \<Gamma> CallComplete r = complete_hook (\<Gamma> r)"

fun event_of :: "'v call \<Rightarrow> ref \<Rightarrow> 'v event" where
  "event_of (CallNext v) r = NextCalled r v"
| "event_of CallComplete r = CompleteCalled r"

definition notify :: "objects \<Rightarrow> 'v call \<Rightarrow> ref \<Rightarrow> 'v state \<Rightarrow> outcome \<times> 'v state" where
  "notify \<Gamma> c r s = run_hook (hook_of \<Gamma> c r) r (s\<lparr>trace := trace s @ [event_of c r]\<rparr>)"

section \<open>TBaseObservable\<close>

text \<open>\<open>subscribe\<close>: \<open>this.observers.push(observer); return new TSubscription(this.observers, observer)\<close>.\<close>

definition observable_subscribe :: "ref \<Rightarrow> ref \<Rightarrow> 'v state \<Rightarrow> disposable \<times> 'v state" where
  "observable_subscribe e r s =
     (TSubscription (ObserversOf e) r, push (ObserversOf e) r s)"

text \<open>
  \<open>TAbstractObserver.subscribe\<close>: \<open>return this.subscription = observable.subscribe(this)\<close>,
  for an emitter that is a \<open>TBaseObservable\<close>. With a \<open>TBaseMediator\<close> as emitter the
  call reaches \<open>TBaseMediator.subscribe\<close> instead, which is \<open>mediator_subscribe\<close> below.
\<close>

definition observer_subscribe :: "ref \<Rightarrow> ref \<Rightarrow> 'v state \<Rightarrow> disposable \<times> 'v state" where
  "observer_subscribe r e s =
     (case observable_subscribe e r s of
        (d, s') \<Rightarrow> (d, s'\<lparr>subscription := (subscription s')(r \<mapsto> d)\<rparr>))"

lemma length_store_dispose: "length (store (dispose d s) a) \<le> length (store s a)"
proof (induction d arbitrary: s)
  case (TSubscription b r)
  show ?case
    by (simp add: dispose_store_TSubscription length_remove1 del: dispose.simps)
next
  case (Composite l d)
  have "length (store (dispose d (dispose l s)) a) \<le> length (store (dispose l s) a)"
    by (rule Composite.IH(2))
  also have "\<dots> \<le> length (store s a)"
    by (rule Composite.IH(1))
  finally show ?case by simp
qed

lemma length_store_run_hook:
  "run_hook h r s = (out, s') \<Longrightarrow> length (store s' a) \<le> length (store s a)"
  by (cases h) (auto simp: unsubscribe_def length_store_dispose split: option.splits)

lemma length_store_notify:
  "notify \<Gamma> c r s = (out, s') \<Longrightarrow> length (store s' a) \<le> length (store s a)"
  by (auto simp: notify_def dest: length_store_run_hook [where a = a])

text \<open>
  \<open>for (const observer of observers) observer.next(value)\<close>: the array iterator keeps an
  index and, at every step, compares it with the current length of the array and reads
  the current element at that index. A hook that throws ends the loop.
\<close>

function for_of_observers ::
  "objects \<Rightarrow> ref \<Rightarrow> 'v call \<Rightarrow> nat \<Rightarrow> 'v state \<Rightarrow> outcome \<times> 'v state" where
  "for_of_observers \<Gamma> e c i s =
     (if i < length (store s (ObserversOf e)) then
        (case notify \<Gamma> c (store s (ObserversOf e) ! i) s of
           (Raised x, s') \<Rightarrow> (Raised x, s')
         | (Normal, s') \<Rightarrow> for_of_observers \<Gamma> e c (Suc i) s')
      else (Normal, s))"
  by pat_completeness auto
termination
proof (relation "measure (\<lambda>(\<Gamma>, e, c, i, s). length (store s (ObserversOf e)) - i)")
  show "wf (measure (\<lambda>(\<Gamma>, e, c, i, s). length (store s (ObserversOf e)) - i))"
    by simp
next
  fix \<Gamma> :: objects and e :: ref and c :: "'v call" and i :: nat and s :: "'v state"
    and out :: outcome and s' :: "'v state"
  assume lt: "i < length (store s (ObserversOf e))"
    and eq: "(out, s') = notify \<Gamma> c (store s (ObserversOf e) ! i) s"
    and "out = Normal"
  from eq have "notify \<Gamma> c (store s (ObserversOf e) ! i) s = (out, s')" by simp
  from length_store_notify [OF this, of "ObserversOf e"] lt
  show "((\<Gamma>, e, c, Suc i, s'), (\<Gamma>, e, c, i, s))
        \<in> measure (\<lambda>(\<Gamma>, e, c, i, s). length (store s (ObserversOf e)) - i)"
    by simp
qed

declare for_of_observers.simps [simp del]

text \<open>\<open>publish(value)\<close>.\<close>

definition publish :: "objects \<Rightarrow> ref \<Rightarrow> 'v \<Rightarrow> 'v state \<Rightarrow> outcome \<times> 'v state" where
  "publish \<Gamma> e v s = for_of_observers \<Gamma> e (CallNext v) 0 s"

text \<open>\<open>complete()\<close>: the loop, then \<open>observers.length = 0\<close> on the same array.\<close>

definition complete :: "objects \<Rightarrow> ref \<Rightarrow> 'v state \<Rightarrow> outcome \<times> 'v state" where
  "complete \<Gamma> e s =
     (case for_of_observers \<Gamma> e CallComplete 0 s of
        (Raised x, s') \<Rightarrow> (Raised x, s')
      | (Normal, s') \<Rightarrow> (Normal, s'\<lparr>store := (store s')(ObserversOf e := [])\<rparr>))"

section \<open>TBaseMediator and TAbstractParticipant\<close>

text \<open>
  \<open>Array.prototype.forEach\<close>: the length is read once, before the first call; for every
  index below it, in order, the callback runs on the current element at that index if
  the index is still inside the array. A callback that throws ends the loop. The second
  number counts the indices still to visit.
\<close>

fun forEach ::
  "arr \<Rightarrow> (ref \<Rightarrow> 'v state \<Rightarrow> outcome \<times> 'v state) \<Rightarrow> nat \<Rightarrow> nat \<Rightarrow> 'v state \<Rightarrow> outcome \<times> 'v state" where
  "forEach a f k 0 s = (Normal, s)"
| "forEach a f k (Suc n) s =
     (if k < length (store s a) then
        (case f (store s a ! k) s of
           (Raised x, s') \<Rightarrow> (Raised x, s')
         | (Normal, s') \<Rightarrow> forEach a f (Suc k) n s')
      else forEach a f (Suc k) n s)"

text \<open>
  The callback of \<open>TBaseMediator.next\<close>: no \<open>topics\<close> property, deliver; \<open>topics\<close> but
  no \<open>participantId\<close>, deliver if \<open>topics.includes(topic)\<close>; otherwise deliver if
  \<open>topics.includes(topic) && participantId !== sender\<close>.
\<close>

definition route ::
  "objects \<Rightarrow> pid \<Rightarrow> topic \<Rightarrow> 'p \<Rightarrow> ref \<Rightarrow> (topic \<times> 'p) state \<Rightarrow> outcome \<times> (topic \<times> 'p) state" where
  "route \<Gamma> sender topic message observer s =
     (case topics_of (cls (\<Gamma> observer)) of
        None \<Rightarrow> notify \<Gamma> (CallNext (topic, message)) observer s
      | Some topics \<Rightarrow>
          (case participantId_of (cls (\<Gamma> observer)) of
             None \<Rightarrow>
               if topic \<in> set topics then notify \<Gamma> (CallNext (topic, message)) observer s
               else (Normal, s)
           | Some participantId \<Rightarrow>
               if topic \<in> set topics \<and> participantId \<noteq> sender
               then notify \<Gamma> (CallNext (topic, message)) observer s
               else (Normal, s)))"

text \<open>\<open>TBaseMediator.next([sender, topic, message])\<close>; the call itself is recorded.\<close>

definition mediator_next ::
  "objects \<Rightarrow> ref \<Rightarrow> pid \<times> topic \<times> 'p \<Rightarrow> (topic \<times> 'p) state \<Rightarrow> outcome \<times> (topic \<times> 'p) state" where
  "mediator_next \<Gamma> m value s =
     (case value of (sender, topic, message) \<Rightarrow>
        forEach (ObserversOf m) (route \<Gamma> sender topic message) 0
          (length (store s (ObserversOf m)))
          (s\<lparr>trace := trace s @ [MediatorNextCalled m sender (topic, message)]\<rparr>))"

text \<open>
  \<open>TAbstractParticipant.publish(message)\<close>:
  \<open>mediators.forEach((mediator) => mediator.next([participantId, ...message]))\<close>.
  The method exists on participants only.
\<close>

definition participant_publish ::
  "objects \<Rightarrow> ref \<Rightarrow> topic \<times> 'p \<Rightarrow> (topic \<times> 'p) state \<Rightarrow> outcome \<times> (topic \<times> 'p) state" where
  "participant_publish \<Gamma> p message s =
     (case participantId_of (cls (\<Gamma> p)) of
        Some participantId \<Rightarrow>
          forEach (MediatorsOf p)
            (\<lambda>mediator. mediator_next \<Gamma> mediator (participantId, fst message, snd message)) 0
            (length (store s (MediatorsOf p))) s
      | None \<Rightarrow> (Normal, s))"

text \<open>
  \<open>TBaseMediator.subscribe(observer)\<close> and \<open>TAbstractParticipant.subscribe(mediator)\<close>
  call each other; \<open>participant.subscribe(this)\<close> in the mediator is a dynamic call, which
  reaches \<open>TBaseMediator.subscribe\<close> when the receiver is itself a mediator. The first
  argument bounds the depth of the calls: \<open>None\<close> means the bound was reached before
  the call returned.
\<close>

fun mediator_subscribe ::
    "nat \<Rightarrow> objects \<Rightarrow> ref \<Rightarrow> ref \<Rightarrow> 'v state \<Rightarrow> (disposable \<times> 'v state) option"
  and participant_subscribe ::
    "nat \<Rightarrow> objects \<Rightarrow> ref \<Rightarrow> ref \<Rightarrow> 'v state \<Rightarrow> (disposable \<times> 'v state) option" where
  "mediator_subscribe 0 \<Gamma> m observer s = None"
| "mediator_subscribe (Suc n) \<Gamma> m observer s =
     (if observer \<notin> set (store s (ObserversOf m)) then
        (let s1 = push (ObserversOf m) observer s
         in if has_subscribe_and_publish (cls (\<Gamma> observer)) then
              (if cls (\<Gamma> observer) = TBaseMediator
               then mediator_subscribe n \<Gamma> observer m s1
               else participant_subscribe n \<Gamma> observer m s1)
            else Some (TSubscription (ObserversOf m) observer, s1))
      else if has_subscribe_and_publish (cls (\<Gamma> observer)) then
        (case (if cls (\<Gamma> observer) = TBaseMediator
               then mediator_subscribe n \<Gamma> observer m s
               else participant_subscribe n \<Gamma> observer m s) of
           None \<Rightarrow> None
         | Some (disposable, s1) \<Rightarrow>
             Some (Composite (TSubscription (ObserversOf m) observer) disposable, s1))
      else Some (TSubscription (ObserversOf m) observer, s))"
| "participant_subscribe 0 \<Gamma> p mediator s = None"
| "participant_subscribe (Suc n) \<Gamma> p mediator s =
     (if mediator \<notin> set (store s (MediatorsOf p)) then
        (case mediator_subscribe n \<Gamma> mediator p (push (MediatorsOf p) mediator s) of
           None \<Rightarrow> None
         | Some (d, s1) \<Rightarrow> Some (TSubscription (MediatorsOf p) mediator, s1))
      else Some (TSubscription (MediatorsOf p) mediator, s))"

section \<open>AbstractDisposable\<close>

text \<open>
  An \<open>AbstractDisposable\<close> with its protected flag, the state of the subclass that
  \<open>onDispose\<close> works on, and the number of times \<open>onDispose\<close> has been entered.
  \<open>onDispose\<close> is the subclass's override: it returns or throws, and leaves a new
  subclass state either way.
\<close>

record 'r abstract_disposable =
  isDisposed_field :: bool
  resource :: 'r
  onDispose_calls :: nat

text \<open>
  \<open>dispose()\<close>: \<open>if (this.isDisposed) return; try { this.onDispose(); } finally
  { this._isDisposed = true; }\<close>.
\<close>

definition abstract_dispose ::
  "('r \<Rightarrow> outcome \<times> 'r) \<Rightarrow> 'r abstract_disposable \<Rightarrow> outcome \<times> 'r abstract_disposable" where
  "abstract_dispose onDispose d =
     (if isDisposed_field d then (Normal, d)
      else (case onDispose (resource d) of
              (out, r') \<Rightarrow>
                (out, d\<lparr>resource := r', onDispose_calls := Suc (onDispose_calls d),
                        isDisposed_field := True\<rparr>)))"

section \<open>Properties stated over the model\<close>

text \<open>
  The routing rule in the words of the specification, by kind of receiver: a plain
  observer always receives; a subscriber receives when the topic is in its filter; a
  participant receives when the topic is in its filter and its identity differs from the
  sender's. A mediator registered as a receiver carries the empty filter. The lemma
  \<open>route_receives\<close> below relates it to the callback of \<open>TBaseMediator.next\<close>.
\<close>

fun receives :: "cls \<Rightarrow> pid \<Rightarrow> topic \<Rightarrow> bool" where
  "receives TObserver sender topic = True"
| "receives (TSubscriber ts) sender topic = (topic \<in> set ts)"
| "receives (TParticipant p ts) sender topic = (topic \<in> set ts \<and> p \<noteq> sender)"
| "receives TBaseMediator sender topic = False"

text \<open>
  A list of calls made during one pass ends at the first call of a \<open>next\<close> that throws,
  and the pass then ends with that exception.
\<close>

definition throw_ends_pass :: "objects \<Rightarrow> 'v event list \<Rightarrow> outcome \<Rightarrow> bool" where
  "throw_ends_pass \<Gamma> evs out =
     (\<forall>k r v x. k < length evs \<and> evs ! k = NextCalled r v \<and> next_hook (\<Gamma> r) = Throws x
        \<longrightarrow> Suc k = length evs \<and> out = Raised x)"

section \<open>Subscriptions and emptiness\<close>

text \<open>
  C1 (as amended). \<open>isDisposed\<close> of a subscription is true exactly when the referenced
  collection is empty, whichever receiver the subscription was built for; immediately
  after \<open>dispose()\<close> it is true exactly when the disposed receiver was the only entry
  (or the collection was already empty).
\<close>

theorem isDisposed_iff_collection_empty:
  "isDisposed s (TSubscription a r) = (store s a = [])
   \<and> isDisposed (dispose (TSubscription a r) s) (TSubscription a r)
       = (store s a = [] \<or> store s a = [r])"
proof -
  have "remove1 r (store s a) = [] \<longleftrightarrow> store s a = [] \<or> store s a = [r]"
    by (cases "store s a") (auto split: if_splits)
  then show ?thesis
    by (simp add: dispose_store_TSubscription del: dispose.simps)
qed

text \<open>
  C1 (as stated) fails: with receivers 1 and 2 registered with emitter 0, disposing the
  subscription of receiver 1 removes it from the collection, yet \<open>isDisposed\<close> still
  reports false because receiver 2 remains.
\<close>

theorem isDisposed_not_membership_counterexample:
  "\<not> (isDisposed (dispose (TSubscription (ObserversOf 0) 1)
          (push (ObserversOf 0) 2 (push (ObserversOf 0) 1 (init :: nat state))))
        (TSubscription (ObserversOf 0) 1)
      \<longleftrightarrow> 1 \<notin> set (store (dispose (TSubscription (ObserversOf 0) 1)
          (push (ObserversOf 0) 2 (push (ObserversOf 0) 1 (init :: nat state)))) (ObserversOf 0)))"
  by (simp add: init_def push_def indexOf_def splice1_def)

section \<open>AbstractDisposable.dispose\<close>

text \<open>
  C10. When \<open>onDispose\<close> raises on a not yet disposed instance, \<open>dispose()\<close> passes the
  exception on to its caller, the instance is marked disposed all the same, and a
  second \<open>dispose()\<close> returns normally at once: \<open>onDispose\<close> is not entered again and
  nothing changes.
\<close>

theorem abstract_dispose_marks_disposed_when_onDispose_raises:
  "\<not> isDisposed_field d \<Longrightarrow> fst (onDispose (resource d)) = Raised x \<Longrightarrow>
   (case abstract_dispose onDispose d of
      (out, d') \<Rightarrow>
        out = Raised x \<and> isDisposed_field d' \<and> onDispose_calls d' = Suc (onDispose_calls d)
        \<and> abstract_dispose onDispose d' = (Normal, d'))"
  by (auto simp: abstract_dispose_def split: prod.splits)

theorem abstract_dispose_marks_disposed_witness:
  "(case abstract_dispose (\<lambda>r. (Raised (Error ''failed''), r))
          \<lparr>isDisposed_field = False, resource = (7::nat), onDispose_calls = 0\<rparr> of
      (out, d') \<Rightarrow>
        out = Raised (Error ''failed'') \<and> isDisposed_field d' \<and> onDispose_calls d' = Suc 0
        \<and> abstract_dispose (\<lambda>r. (Raised (Error ''failed''), r)) d' = (Normal, d'))"
  using abstract_dispose_marks_disposed_when_onDispose_raises
    [of "\<lparr>isDisposed_field = False, resource = (7::nat), onDispose_calls = 0\<rparr>"
        "\<lambda>r. (Raised (Error ''failed''), r)" "Error ''failed''"]
  by simp

section \<open>A mediator subscribed to a mediator\<close>

text \<open>
  C9. \<open>TBaseMediator.subscribe\<close> does not return when the receiver is itself a
  \<open>TBaseMediator\<close> (the mediator itself included): whatever the bound on the depth of
  the calls, the bound is reached. Each mediator's \<open>subscribe\<close> calls the other's, in
  both branches, and nothing decreases.
\<close>

theorem mediator_subscribe_mediator_never_returns:
  "cls (\<Gamma> m) = TBaseMediator \<Longrightarrow> cls (\<Gamma> r) = TBaseMediator \<Longrightarrow>
   mediator_subscribe n \<Gamma> m r (s :: 'v state) = None"
proof (induction n arbitrary: m r s)
  case 0
  show ?case by simp
next
  case (Suc n)
  have rec: "mediator_subscribe n \<Gamma> r m s' = None" for s' :: "'v state"
    by (rule Suc.IH [OF Suc.prems(2) Suc.prems(1)])
  show ?case
    using Suc.prems(2) by (simp add: rec Let_def)
qed

theorem mediator_subscribe_mediator_never_returns_witness:
  "mediator_subscribe 7 (\<lambda>r. \<lparr>cls = TBaseMediator, next_hook = Returns, complete_hook = Returns\<rparr>)
     0 1 (init :: nat state) = None"
  using mediator_subscribe_mediator_never_returns
    [of "\<lambda>r. \<lparr>cls = TBaseMediator, next_hook = Returns, complete_hook = Returns\<rparr>" 0 1 7
        "init :: nat state"]
  by simp

section \<open>A receiver that unsubscribes during a pass\<close>

text \<open>
  C3 (the code at the failing input). Receivers 1, 2 and 3 subscribe to emitter 0 through
  \<open>TAbstractObserver.subscribe\<close>; the \<open>next\<close> of receiver 1 calls \<open>this.unsubscribe()\<close>.
  One \<open>publish\<close> then calls \<open>next\<close> on receivers 1 and 3 only: receiver 2, registered
  when the pass began and not disposed by anyone, is skipped.
\<close>

theorem publish_skips_receiver_after_self_dispose:
  "publish
     (\<lambda>r. \<lparr>cls = TObserver, next_hook = (if r = 1 then Unsubscribes else Returns),
           complete_hook = Returns\<rparr>)
     0 v
     (snd (observer_subscribe 3 0 (snd (observer_subscribe 2 0
        (snd (observer_subscribe 1 0 init))))))
   = (Normal,
      \<lparr>store = (\<lambda>a. []) (ObserversOf 0 := [2, 3]),
       subscription = [1 \<mapsto> TSubscription (ObserversOf 0) 1, 2 \<mapsto> TSubscription (ObserversOf 0) 2,
                       3 \<mapsto> TSubscription (ObserversOf 0) 3],
       trace = [NextCalled 1 v, NextCalled 3 v]\<rparr>)"
  by (simp add: publish_def for_of_observers.simps observer_subscribe_def
      observable_subscribe_def init_def push_def notify_def unsubscribe_def indexOf_def
      splice1_def)

text \<open>
  C5 (the code at the failing input). Receivers 1, 2 and 3 subscribe to emitter 0 through
  \<open>TAbstractObserver.subscribe\<close> and keep the inherited \<open>complete\<close>, which calls
  \<open>this.unsubscribe()\<close>. \<open>complete()\<close> on the emitter then calls \<open>complete\<close> on receivers
  1 and 3 only, and clears the collection.
\<close>

theorem complete_skips_receiver_after_self_dispose:
  "complete
     (\<lambda>r. \<lparr>cls = TObserver, next_hook = Returns, complete_hook = Unsubscribes\<rparr>)
     0
     (snd (observer_subscribe 3 0 (snd (observer_subscribe 2 0
        (snd (observer_subscribe 1 0 (init :: 'v state)))))))
   = (Normal,
      \<lparr>store = (\<lambda>a. []),
       subscription = [1 \<mapsto> TSubscription (ObserversOf 0) 1, 2 \<mapsto> TSubscription (ObserversOf 0) 2,
                       3 \<mapsto> TSubscription (ObserversOf 0) 3],
       trace = [CompleteCalled 1, CompleteCalled 3]\<rparr>)"
  by (simp add: complete_def for_of_observers.simps observer_subscribe_def
      observable_subscribe_def init_def push_def notify_def unsubscribe_def indexOf_def
      splice1_def fun_eq_iff)

section \<open>Frame facts\<close>

lemma trace_dispose [simp]: "trace (dispose d s) = trace s"
  by (induction d arbitrary: s) (simp_all add: Let_def)

lemma subscription_dispose [simp]: "subscription (dispose d s) = subscription s"
  by (induction d arbitrary: s) (simp_all add: Let_def)

lemma set_store_dispose: "set (store (dispose d s) a) \<subseteq> set (store s a)"
proof (induction d arbitrary: s)
  case (TSubscription b r)
  show ?case
    using set_remove1_subset [of r "store s b"]
    by (simp add: dispose_store_TSubscription del: dispose.simps)
next
  case (Composite l d)
  have "set (store (dispose d (dispose l s)) a) \<subseteq> set (store (dispose l s) a)"
    by (rule Composite.IH(2))
  also have "\<dots> \<subseteq> set (store s a)"
    by (rule Composite.IH(1))
  finally show ?case by simp
qed

lemma dispose_absent: "r \<notin> set (store s a) \<Longrightarrow> dispose (TSubscription a r) s = s"
  by (simp add: indexOf_def indexOf_from_absent)

lemma run_hook_trace: "run_hook h r s = (out, s') \<Longrightarrow> trace s' = trace s"
  by (cases h) (auto simp: unsubscribe_def split: option.splits)

lemma run_hook_store: "run_hook h r s = (out, s') \<Longrightarrow> set (store s' a) \<subseteq> set (store s a)"
  using set_store_dispose by (cases h) (auto simp: unsubscribe_def split: option.splits)

lemma notify_trace: "notify \<Gamma> c r s = (out, s') \<Longrightarrow> trace s' = trace s @ [event_of c r]"
  by (auto simp: notify_def dest: run_hook_trace)

lemma notify_store: "notify \<Gamma> c r s = (out, s') \<Longrightarrow> set (store s' a) \<subseteq> set (store s a)"
  by (auto simp: notify_def dest!: run_hook_store [where a = a])

lemma notify_Returns:
  "hook_of \<Gamma> c r = Returns \<Longrightarrow> notify \<Gamma> c r s = (Normal, s\<lparr>trace := trace s @ [event_of c r]\<rparr>)"
  by (simp add: notify_def)

lemma notify_Throws:
  "hook_of \<Gamma> c r = Throws x \<Longrightarrow> notify \<Gamma> c r s = (Raised x, s\<lparr>trace := trace s @ [event_of c r]\<rparr>)"
  by (simp add: notify_def)

lemma notify_Normal_not_Throws: "notify \<Gamma> c r s = (Normal, s') \<Longrightarrow> hook_of \<Gamma> c r \<noteq> Throws x"
  by (auto simp: notify_def)

lemma route_receives:
  "route \<Gamma> sender topic message r s =
     (if receives (cls (\<Gamma> r)) sender topic then notify \<Gamma> (CallNext (topic, message)) r s
      else (Normal, s))"
  by (cases "cls (\<Gamma> r)") (simp_all add: route_def)

lemma throw_ends_pass_Nil: "throw_ends_pass \<Gamma> [] out"
  by (simp add: throw_ends_pass_def)

lemma throw_ends_pass_last:
  assumes "notify \<Gamma> c r s = (out, s')"
  shows "throw_ends_pass \<Gamma> [event_of c r] out"
proof (cases c)
  case (CallNext v)
  show ?thesis
    unfolding throw_ends_pass_def
  proof (intro allI impI)
    fix k q w x
    assume h: "k < length [event_of c r] \<and> [event_of c r] ! k = NextCalled q w
      \<and> next_hook (\<Gamma> q) = Throws x"
    with CallNext have "q = r" and "hook_of \<Gamma> c r = Throws x" by auto
    with assms h show "Suc k = length [event_of c r] \<and> out = Raised x"
      by (simp add: notify_Throws)
  qed
next
  case CallComplete
  then show ?thesis by (simp add: throw_ends_pass_def)
qed

lemma throw_ends_pass_Cons:
  assumes "notify \<Gamma> c r s = (Normal, s1)" and "throw_ends_pass \<Gamma> evs out"
  shows "throw_ends_pass \<Gamma> (event_of c r # evs) out"
  unfolding throw_ends_pass_def
proof (intro allI impI)
  fix k q w x
  assume h: "k < length (event_of c r # evs) \<and> (event_of c r # evs) ! k = NextCalled q w
    \<and> next_hook (\<Gamma> q) = Throws x"
  show "Suc k = length (event_of c r # evs) \<and> out = Raised x"
  proof (cases k)
    case 0
    with h have "event_of c r = NextCalled q w" by simp
    then have "hook_of \<Gamma> c r = Throws x" using h by (cases c) auto
    with notify_Normal_not_Throws [OF assms(1), of x] show ?thesis by simp
  next
    case (Suc j)
    with h assms(2) show ?thesis by (auto simp: throw_ends_pass_def)
  qed
qed

lemma for_of_throw_ends_pass:
  "for_of_observers \<Gamma> e c i s = (out, s') \<Longrightarrow>
   \<exists>evs. trace s' = trace s @ evs \<and> throw_ends_pass \<Gamma> evs out"
proof (induction \<Gamma> e c i s arbitrary: out s' rule: for_of_observers.induct)
  case (1 \<Gamma> e c i s)
  show ?case
  proof (cases "i < length (store s (ObserversOf e))")
    case False
    with "1.prems" have "s' = s" by (simp add: for_of_observers.simps)
    then show ?thesis by (simp add: throw_ends_pass_Nil)
  next
    case True
    obtain o1 s1 where n: "notify \<Gamma> c (store s (ObserversOf e) ! i) s = (o1, s1)"
      by (cases "notify \<Gamma> c (store s (ObserversOf e) ! i) s")
    show ?thesis
    proof (cases o1)
      case (Raised x)
      with True n "1.prems" have "out = o1" "s' = s1"
        by (simp_all add: for_of_observers.simps)
      with n notify_trace [OF n] throw_ends_pass_last [OF n] show ?thesis by auto
    next
      case Normal
      with True n "1.prems" have rec: "for_of_observers \<Gamma> e c (Suc i) s1 = (out, s')"
        by (simp add: for_of_observers.simps)
      from "1.IH" [OF True n [symmetric] Normal rec]
      obtain evs where "trace s' = trace s1 @ evs" "throw_ends_pass \<Gamma> evs out" by auto
      with notify_trace [OF n] throw_ends_pass_Cons [OF n [unfolded Normal]]
      show ?thesis by auto
    qed
  qed
qed

lemma forEach_route_throw_ends_pass:
  "forEach (ObserversOf m) (route \<Gamma> sender topic message) k n s = (out, s') \<Longrightarrow>
   \<exists>evs. trace s' = trace s @ evs \<and> throw_ends_pass \<Gamma> evs out"
proof (induction n arbitrary: k s)
  case 0
  then show ?case by (simp add: throw_ends_pass_Nil)
next
  case (Suc n)
  let ?r = "store s (ObserversOf m) ! k"
  show ?case
  proof (cases "k < length (store s (ObserversOf m)) \<and> receives (cls (\<Gamma> ?r)) sender topic")
    case False
    with Suc.prems route_receives [of \<Gamma> sender topic message ?r s]
    have "forEach (ObserversOf m) (route \<Gamma> sender topic message) (Suc k) n s = (out, s')"
      by (auto split: if_splits)
    from Suc.IH [OF this] show ?thesis .
  next
    case True
    obtain o1 s1 where n: "notify \<Gamma> (CallNext (topic, message)) ?r s = (o1, s1)"
      by (cases "notify \<Gamma> (CallNext (topic, message)) ?r s")
    show ?thesis
    proof (cases o1)
      case (Raised x)
      with True n Suc.prems route_receives [of \<Gamma> sender topic message ?r s]
      have "out = o1" "s' = s1"
        by simp_all
      with n notify_trace [OF n] throw_ends_pass_last [OF n] show ?thesis by auto
    next
      case Normal
      with True n Suc.prems route_receives [of \<Gamma> sender topic message ?r s]
      have "forEach (ObserversOf m) (route \<Gamma> sender topic message) (Suc k) n s1 = (out, s')"
        by simp
      from Suc.IH [OF this]
      obtain evs where "trace s' = trace s1 @ evs" "throw_ends_pass \<Gamma> evs out" by auto
      with notify_trace [OF n] throw_ends_pass_Cons [OF n [unfolded Normal]]
      show ?thesis by auto
    qed
  qed
qed

lemma for_of_passive:
  "store s (ObserversOf e) = dn @ rest \<Longrightarrow> \<forall>q\<in>set rest. hook_of \<Gamma> c q = Returns \<Longrightarrow>
   for_of_observers \<Gamma> e c (length dn) s
     = (Normal, s\<lparr>trace := trace s @ map (event_of c) rest\<rparr>)"
proof (induction rest arbitrary: dn s)
  case Nil
  then show ?case by (simp add: for_of_observers.simps)
next
  case (Cons q rest)
  let ?s1 = "s\<lparr>trace := trace s @ [event_of c q]\<rparr>"
  from Cons.prems have st: "store ?s1 (ObserversOf e) = (dn @ [q]) @ rest" by simp
  from Cons.prems have "\<forall>q\<in>set rest. hook_of \<Gamma> c q = Returns" by simp
  from Cons.IH [OF st this]
  have "for_of_observers \<Gamma> e c (Suc (length dn)) ?s1
        = (Normal, s\<lparr>trace := trace s @ map (event_of c) (q # rest)\<rparr>)" by simp
  with Cons.prems show ?case
    by (subst for_of_observers.simps) (simp add: notify_Returns)
qed

lemma for_of_until_throw:
  "store s (ObserversOf e) = dn @ pre @ r # post \<Longrightarrow> \<forall>q\<in>set pre. hook_of \<Gamma> c q = Returns \<Longrightarrow>
   hook_of \<Gamma> c r = Throws x \<Longrightarrow>
   for_of_observers \<Gamma> e c (length dn) s
     = (Raised x, s\<lparr>trace := trace s @ map (event_of c) (pre @ [r])\<rparr>)"
proof (induction pre arbitrary: dn s)
  case Nil
  then show ?case
    by (subst for_of_observers.simps) (simp add: notify_Throws)
next
  case (Cons q pre)
  let ?s1 = "s\<lparr>trace := trace s @ [event_of c q]\<rparr>"
  from Cons.prems have st: "store ?s1 (ObserversOf e) = (dn @ [q]) @ pre @ r # post" by simp
  from Cons.prems have "\<forall>q\<in>set pre. hook_of \<Gamma> c q = Returns" by simp
  from Cons.IH [OF st this Cons.prems(3)]
  have "for_of_observers \<Gamma> e c (Suc (length dn)) ?s1
        = (Raised x, s\<lparr>trace := trace s @ map (event_of c) ((q # pre) @ [r])\<rparr>)" by simp
  with Cons.prems show ?case
    by (subst for_of_observers.simps) (simp add: notify_Returns)
qed

lemma forEach_route_passive:
  "store s (ObserversOf m) = dn @ rest \<Longrightarrow>
   \<forall>q\<in>set rest. receives (cls (\<Gamma> q)) sender topic \<longrightarrow> next_hook (\<Gamma> q) = Returns \<Longrightarrow>
   forEach (ObserversOf m) (route \<Gamma> sender topic message) (length dn) (length rest) s
     = (Normal, s\<lparr>trace := trace s @ map (\<lambda>q. NextCalled q (topic, message))
                  (filter (\<lambda>q. receives (cls (\<Gamma> q)) sender topic) rest)\<rparr>)"
proof (induction rest arbitrary: dn s)
  case Nil
  then show ?case by simp
next
  case (Cons q rest)
  from Cons.prems have rest: "\<forall>q\<in>set rest. receives (cls (\<Gamma> q)) sender topic \<longrightarrow> next_hook (\<Gamma> q) = Returns"
    by simp
  show ?case
  proof (cases "receives (cls (\<Gamma> q)) sender topic")
    case True
    let ?s1 = "s\<lparr>trace := trace s @ [NextCalled q (topic, message)]\<rparr>"
    from Cons.prems have st: "store ?s1 (ObserversOf m) = (dn @ [q]) @ rest" by simp
    from True Cons.prems have "hook_of \<Gamma> (CallNext (topic, message)) q = Returns" by simp
    from notify_Returns [OF this, of s] Cons.IH [OF st rest] True Cons.prems(1)
      route_receives [of \<Gamma> sender topic message q s]
    show ?thesis by simp
  next
    case False
    from Cons.prems have st: "store s (ObserversOf m) = (dn @ [q]) @ rest" by simp
    from Cons.IH [OF st rest] False Cons.prems(1)
      route_receives [of \<Gamma> sender topic message q s]
    show ?thesis by simp
  qed
qed

lemma forEach_route_until_throw:
  "store s (ObserversOf m) = dn @ pre @ r # post \<Longrightarrow>
   \<forall>q\<in>set pre. receives (cls (\<Gamma> q)) sender topic \<longrightarrow> next_hook (\<Gamma> q) = Returns \<Longrightarrow>
   receives (cls (\<Gamma> r)) sender topic \<Longrightarrow> next_hook (\<Gamma> r) = Throws x \<Longrightarrow>
   forEach (ObserversOf m) (route \<Gamma> sender topic message) (length dn) (Suc (length pre + j)) s
     = (Raised x, s\<lparr>trace := trace s @ map (\<lambda>q. NextCalled q (topic, message))
                  (filter (\<lambda>q. receives (cls (\<Gamma> q)) sender topic) pre @ [r])\<rparr>)"
proof (induction pre arbitrary: dn s)
  case Nil
  then have "hook_of \<Gamma> (CallNext (topic, message)) r = Throws x" by simp
  from notify_Throws [OF this, of s] Nil route_receives [of \<Gamma> sender topic message r s]
  show ?case by simp
next
  case (Cons q pre)
  from Cons.prems have pre: "\<forall>q\<in>set pre. receives (cls (\<Gamma> q)) sender topic \<longrightarrow> next_hook (\<Gamma> q) = Returns"
    by simp
  show ?case
  proof (cases "receives (cls (\<Gamma> q)) sender topic")
    case True
    let ?s1 = "s\<lparr>trace := trace s @ [NextCalled q (topic, message)]\<rparr>"
    from Cons.prems have st: "store ?s1 (ObserversOf m) = (dn @ [q]) @ pre @ r # post" by simp
    from True Cons.prems have "hook_of \<Gamma> (CallNext (topic, message)) q = Returns" by simp
    from notify_Returns [OF this, of s] Cons.IH [OF st pre Cons.prems(3,4)] True Cons.prems(1)
      route_receives [of \<Gamma> sender topic message q s]
    show ?thesis by simp
  next
    case False
    from Cons.prems have st: "store s (ObserversOf m) = (dn @ [q]) @ pre @ r # post" by simp
    from Cons.IH [OF st pre Cons.prems(3,4)] False Cons.prems(1)
      route_receives [of \<Gamma> sender topic message q s]
    show ?thesis by simp
  qed
qed

section \<open>Routing in the mediator\<close>

text \<open>
  The part of C2 that the code does provide. When every receiver that the pass calls
  returns normally from \<open>next\<close> without touching the collection,
  \<open>mediator.next([sender, topic, payload])\<close> calls \<open>next([topic, payload])\<close> on the
  registered receivers that \<open>receives\<close> selects, in the order of the collection, and on
  no other: a plain observer always, a subscriber when the topic is in its filter, a
  participant when the topic is in its filter and its \<open>participantId\<close> is not the sender.
\<close>

lemma mediator_next_passive:
  "\<forall>q\<in>set (store s (ObserversOf m)).
      receives (cls (\<Gamma> q)) sender topic \<longrightarrow> next_hook (\<Gamma> q) = Returns \<Longrightarrow>
   mediator_next \<Gamma> m (sender, topic, message) s
     = (Normal,
        s\<lparr>trace := trace s @ MediatorNextCalled m sender (topic, message) #
             map (\<lambda>q. NextCalled q (topic, message))
               (filter (\<lambda>q. receives (cls (\<Gamma> q)) sender topic) (store s (ObserversOf m)))\<rparr>)"
proof -
  assume h: "\<forall>q\<in>set (store s (ObserversOf m)).
      receives (cls (\<Gamma> q)) sender topic \<longrightarrow> next_hook (\<Gamma> q) = Returns"
  let ?s0 = "s\<lparr>trace := trace s @ [MediatorNextCalled m sender (topic, message)]\<rparr>"
  have st: "store ?s0 (ObserversOf m) = [] @ store s (ObserversOf m)" by simp
  from forEach_route_passive [OF st h, of message]
  show ?thesis by (simp add: mediator_next_def)
qed

text \<open>
  C2 (the code at the failing input). Receiver 1 (a plain observer), receiver 2 (a
  subscriber to topic \<open>A\<close>) and receiver 3 (a plain observer) subscribe to mediator 0;
  the \<open>next\<close> of receiver 1 disposes the subscription that \<open>subscribe\<close> returned for
  it. \<open>mediator.next\<close> with a message on topic \<open>A\<close> then calls \<open>next\<close> on receivers 1
  and 3 only: receiver 2, registered and eligible by its kind, is skipped, because
  \<open>forEach\<close> goes on to index 1 of the array that the splice has shifted.
\<close>

theorem mediator_next_skips_receiver_after_self_dispose:
  "mediator_subscribe 1
     (\<lambda>r. \<lparr>cls = (if r = 2 then TSubscriber [''A''] else TObserver),
           next_hook = (if r = 1 then Disposes (TSubscription (ObserversOf 0) 1) else Returns),
           complete_hook = Returns\<rparr>)
     0 1 (init :: (topic \<times> 'p) state)
     = Some (TSubscription (ObserversOf 0) 1, push (ObserversOf 0) 1 init)
   \<and> mediator_subscribe 1
     (\<lambda>r. \<lparr>cls = (if r = 2 then TSubscriber [''A''] else TObserver),
           next_hook = (if r = 1 then Disposes (TSubscription (ObserversOf 0) 1) else Returns),
           complete_hook = Returns\<rparr>)
     0 2 (push (ObserversOf 0) 1 (init :: (topic \<times> 'p) state))
     = Some (TSubscription (ObserversOf 0) 2, push (ObserversOf 0) 2 (push (ObserversOf 0) 1 init))
   \<and> mediator_subscribe 1
     (\<lambda>r. \<lparr>cls = (if r = 2 then TSubscriber [''A''] else TObserver),
           next_hook = (if r = 1 then Disposes (TSubscription (ObserversOf 0) 1) else Returns),
           complete_hook = Returns\<rparr>)
     0 3 (push (ObserversOf 0) 2 (push (ObserversOf 0) 1 (init :: (topic \<times> 'p) state)))
     = Some (TSubscription (ObserversOf 0) 3,
             push (ObserversOf 0) 3 (push (ObserversOf 0) 2 (push (ObserversOf 0) 1 init)))
   \<and> mediator_next
     (\<lambda>r. \<lparr>cls = (if r = 2 then TSubscriber [''A''] else TObserver),
           next_hook = (if r = 1 then Disposes (TSubscription (ObserversOf 0) 1) else Returns),
           complete_hook = Returns\<rparr>)
     0 (9, ''A'', v)
     (push (ObserversOf 0) 3 (push (ObserversOf 0) 2 (push (ObserversOf 0) 1 init)))
     = (Normal,
        \<lparr>store = (\<lambda>a. []) (ObserversOf 0 := [2, 3]), subscription = (\<lambda>r. None),
         trace = [MediatorNextCalled 0 9 (''A'', v), NextCalled 1 (''A'', v),
                  NextCalled 3 (''A'', v)]\<rparr>)"
  by (simp add: init_def push_def mediator_next_def route_def notify_def indexOf_def
      splice1_def Let_def numeral_eq_Suc)

section \<open>A receiver whose next raises\<close>

text \<open>
  C7. Nothing catches an exception thrown by a receiver's \<open>next\<close> during
  \<open>TBaseObservable.publish\<close> or \<open>TBaseMediator.next\<close>. When the receivers before \<open>r\<close>
  return and \<open>r\<close> throws, the pass returns that exception after the calls up to \<open>r\<close>, and
  the receivers after \<open>r\<close> are not called. Whatever the receivers do, a call of a \<open>next\<close>
  that throws is the last call of the pass, and the pass ends with its exception.
\<close>

theorem raising_next_aborts_pass:
  fixes s s' :: "'v state" and t t' :: "(topic \<times> 'p) state"
  shows
  "(store s (ObserversOf e) = pre @ r # post \<and> (\<forall>q\<in>set pre. next_hook (\<Gamma> q) = Returns)
      \<and> next_hook (\<Gamma> r) = Throws x
     \<longrightarrow> publish \<Gamma> e v s
           = (Raised x, s\<lparr>trace := trace s @ map (\<lambda>q. NextCalled q v) (pre @ [r])\<rparr>))
   \<and> (publish \<Gamma> e v s = (out, s')
     \<longrightarrow> (\<exists>evs. trace s' = trace s @ evs
           \<and> (\<forall>k q w y. k < length evs \<and> evs ! k = NextCalled q w \<and> next_hook (\<Gamma> q) = Throws y
                 \<longrightarrow> Suc k = length evs \<and> out = Raised y)))
   \<and> (store t (ObserversOf m) = pre' @ r' # post'
      \<and> (\<forall>q\<in>set pre'. receives (cls (\<Gamma> q)) sender topic \<longrightarrow> next_hook (\<Gamma> q) = Returns)
      \<and> receives (cls (\<Gamma> r')) sender topic \<and> next_hook (\<Gamma> r') = Throws x'
     \<longrightarrow> mediator_next \<Gamma> m (sender, topic, message) t
           = (Raised x',
              t\<lparr>trace := trace t @ MediatorNextCalled m sender (topic, message) #
                   map (\<lambda>q. NextCalled q (topic, message))
                     (filter (\<lambda>q. receives (cls (\<Gamma> q)) sender topic) pre' @ [r'])\<rparr>))
   \<and> (mediator_next \<Gamma> m (sender, topic, message) t = (out', t')
     \<longrightarrow> (\<exists>evs. trace t' = trace t @ MediatorNextCalled m sender (topic, message) # evs
           \<and> (\<forall>k q w y. k < length evs \<and> evs ! k = NextCalled q w \<and> next_hook (\<Gamma> q) = Throws y
                 \<longrightarrow> Suc k = length evs \<and> out' = Raised y)))"
proof (intro conjI impI)
  assume h: "store s (ObserversOf e) = pre @ r # post \<and> (\<forall>q\<in>set pre. next_hook (\<Gamma> q) = Returns)
      \<and> next_hook (\<Gamma> r) = Throws x"
  then have st: "store s (ObserversOf e) = [] @ pre @ r # post"
    and pre: "\<forall>q\<in>set pre. hook_of \<Gamma> (CallNext v) q = Returns"
    and thr: "hook_of \<Gamma> (CallNext v) r = Throws x" by simp_all
  from for_of_until_throw [OF st pre thr]
  show "publish \<Gamma> e v s
        = (Raised x, s\<lparr>trace := trace s @ map (\<lambda>q. NextCalled q v) (pre @ [r])\<rparr>)"
    by (simp add: publish_def)
next
  assume "publish \<Gamma> e v s = (out, s')"
  then have "for_of_observers \<Gamma> e (CallNext v) 0 s = (out, s')" by (simp add: publish_def)
  from for_of_throw_ends_pass [OF this]
  show "\<exists>evs. trace s' = trace s @ evs
           \<and> (\<forall>k q w y. k < length evs \<and> evs ! k = NextCalled q w \<and> next_hook (\<Gamma> q) = Throws y
                 \<longrightarrow> Suc k = length evs \<and> out = Raised y)"
    by (simp add: throw_ends_pass_def)
next
  assume h: "store t (ObserversOf m) = pre' @ r' # post'
      \<and> (\<forall>q\<in>set pre'. receives (cls (\<Gamma> q)) sender topic \<longrightarrow> next_hook (\<Gamma> q) = Returns)
      \<and> receives (cls (\<Gamma> r')) sender topic \<and> next_hook (\<Gamma> r') = Throws x'"
  let ?t0 = "t\<lparr>trace := trace t @ [MediatorNextCalled m sender (topic, message)]\<rparr>"
  from h have st: "store ?t0 (ObserversOf m) = [] @ pre' @ r' # post'"
    and pre: "\<forall>q\<in>set pre'. receives (cls (\<Gamma> q)) sender topic \<longrightarrow> next_hook (\<Gamma> q) = Returns"
    and rcv: "receives (cls (\<Gamma> r')) sender topic" and thr: "next_hook (\<Gamma> r') = Throws x'"
    by simp_all
  from forEach_route_until_throw [OF st pre rcv thr, of message "length post'"] h
  show "mediator_next \<Gamma> m (sender, topic, message) t
           = (Raised x',
              t\<lparr>trace := trace t @ MediatorNextCalled m sender (topic, message) #
                   map (\<lambda>q. NextCalled q (topic, message))
                     (filter (\<lambda>q. receives (cls (\<Gamma> q)) sender topic) pre' @ [r'])\<rparr>)"
    by (simp add: mediator_next_def)
next
  assume "mediator_next \<Gamma> m (sender, topic, message) t = (out', t')"
  then have "forEach (ObserversOf m) (route \<Gamma> sender topic message) 0
      (length (store t (ObserversOf m)))
      (t\<lparr>trace := trace t @ [MediatorNextCalled m sender (topic, message)]\<rparr>) = (out', t')"
    by (simp add: mediator_next_def)
  from forEach_route_throw_ends_pass [OF this]
  show "\<exists>evs. trace t' = trace t @ MediatorNextCalled m sender (topic, message) # evs
           \<and> (\<forall>k q w y. k < length evs \<and> evs ! k = NextCalled q w \<and> next_hook (\<Gamma> q) = Throws y
                 \<longrightarrow> Suc k = length evs \<and> out' = Raised y)"
    by (simp add: throw_ends_pass_def)
qed

theorem raising_next_aborts_pass_witness:
  "publish
     (\<lambda>r. \<lparr>cls = TObserver, next_hook = (if r = 2 then Throws (Error ''boom'') else Returns),
           complete_hook = Returns\<rparr>)
     0 (5 :: nat) (push (ObserversOf 0) 3 (push (ObserversOf 0) 2 (push (ObserversOf 0) 1 init)))
   = (Raised (Error ''boom''),
      \<lparr>store = (\<lambda>a. []) (ObserversOf 0 := [1, 2, 3]), subscription = (\<lambda>r. None),
       trace = [NextCalled 1 5, NextCalled 2 5]\<rparr>)
   \<and> mediator_next
     (\<lambda>r. \<lparr>cls = TObserver, next_hook = (if r = 2 then Throws (Error ''boom'') else Returns),
           complete_hook = Returns\<rparr>)
     0 (7, ''A'', 5 :: nat)
     (push (ObserversOf 0) 3 (push (ObserversOf 0) 2 (push (ObserversOf 0) 1 init)))
   = (Raised (Error ''boom''),
      \<lparr>store = (\<lambda>a. []) (ObserversOf 0 := [1, 2, 3]), subscription = (\<lambda>r. None),
       trace = [MediatorNextCalled 0 7 (''A'', 5), NextCalled 1 (''A'', 5),
                NextCalled 2 (''A'', 5)]\<rparr>)"
proof -
  let ?\<Gamma> = "\<lambda>r::ref. \<lparr>cls = TObserver,
      next_hook = (if r = 2 then Throws (Error ''boom'') else Returns), complete_hook = Returns\<rparr>"
  let ?s = "push (ObserversOf 0) 3 (push (ObserversOf 0) 2 (push (ObserversOf 0) 1 init))
    :: nat state"
  let ?t = "push (ObserversOf 0) 3 (push (ObserversOf 0) 2 (push (ObserversOf 0) 1 init))
    :: (topic \<times> nat) state"
  note inst = raising_next_aborts_pass
    [where s = ?s and e = 0 and pre = "[1]" and r = 2 and post = "[3]" and \<Gamma> = ?\<Gamma>
       and x = "Error ''boom''" and v = 5 and t = ?t and m = 0 and pre' = "[1]" and r' = 2
       and post' = "[3]" and sender = 7 and topic = "''A''" and message = 5
       and x' = "Error ''boom''"]
  from inst [THEN conjunct1] have a: "publish ?\<Gamma> 0 5 ?s
      = (Raised (Error ''boom''),
         \<lparr>store = (\<lambda>a. []) (ObserversOf 0 := [1, 2, 3]), subscription = (\<lambda>r. None),
          trace = [NextCalled 1 5, NextCalled 2 5]\<rparr>)"
    by (simp add: init_def push_def)
  from inst [THEN conjunct2, THEN conjunct2, THEN conjunct1]
  have b: "mediator_next ?\<Gamma> 0 (7, ''A'', 5) ?t
      = (Raised (Error ''boom''),
         \<lparr>store = (\<lambda>a. []) (ObserversOf 0 := [1, 2, 3]), subscription = (\<lambda>r. None),
          trace = [MediatorNextCalled 0 7 (''A'', 5), NextCalled 1 (''A'', 5),
                   NextCalled 2 (''A'', 5)]\<rparr>)"
    by (simp add: init_def push_def)
  from a b show ?thesis by simp
qed

section \<open>Disposing a subscription\<close>

lemma remove1_registered_once: "count_list xs r \<le> 1 \<Longrightarrow> r \<notin> set (remove1 r xs)"
  by (induction xs) (auto simp: count_list_0_iff split: if_splits)

lemma for_of_absent_not_called:
  "r \<notin> set (store s (ObserversOf e)) \<Longrightarrow> for_of_observers \<Gamma> e c i s = (out, s') \<Longrightarrow>
   r \<notin> set (store s' (ObserversOf e))
   \<and> (\<exists>evs. trace s' = trace s @ evs \<and> (\<forall>w. NextCalled r w \<notin> set evs) \<and> CompleteCalled r \<notin> set evs)"
proof (induction \<Gamma> e c i s arbitrary: out s' rule: for_of_observers.induct)
  case (1 \<Gamma> e c i s)
  show ?case
  proof (cases "i < length (store s (ObserversOf e))")
    case False
    with "1.prems" have "s' = s" by (simp add: for_of_observers.simps)
    with "1.prems" show ?thesis by simp
  next
    case True
    let ?q = "store s (ObserversOf e) ! i"
    from True "1.prems"(1) have neq: "?q \<noteq> r" by (metis nth_mem)
    obtain o1 s1 where n: "notify \<Gamma> c ?q s = (o1, s1)"
      by (cases "notify \<Gamma> c ?q s")
    from notify_store [OF n, of "ObserversOf e"] "1.prems"(1)
    have abs1: "r \<notin> set (store s1 (ObserversOf e))" by auto
    from neq have ev: "(\<forall>w. NextCalled r w \<noteq> event_of c ?q) \<and> CompleteCalled r \<noteq> event_of c ?q"
      by (cases c) auto
    show ?thesis
    proof (cases o1)
      case (Raised x)
      with True n "1.prems" have "s' = s1"
        by (simp add: for_of_observers.simps)
      with abs1 notify_trace [OF n] ev show ?thesis by auto
    next
      case Normal
      with True n "1.prems" have rec: "for_of_observers \<Gamma> e c (Suc i) s1 = (out, s')"
        by (simp add: for_of_observers.simps)
      from "1.IH" [OF True n [symmetric] Normal abs1 rec]
      obtain evs where "r \<notin> set (store s' (ObserversOf e))" "trace s' = trace s1 @ evs"
        "\<forall>w. NextCalled r w \<notin> set evs" "CompleteCalled r \<notin> set evs" by auto
      with notify_trace [OF n] ev show ?thesis by auto
    qed
  qed
qed

lemma complete_clears:
  "complete \<Gamma> e s = (Normal, s') \<Longrightarrow> store s' (ObserversOf e) = []"
  by (auto simp: complete_def split: prod.splits outcome.splits)

text \<open>
  C6 (as amended). \<open>dispose()\<close> has no failing branch. When the receiver is absent from
  the collection it changes nothing; this is the case after \<open>complete()\<close> has returned
  and cleared the collection. \<open>dispose()\<close> removes the first occurrence only: for a
  receiver registered at most once, it is absent afterwards, a second \<open>dispose()\<close>
  changes nothing, and a later \<open>publish\<close> on the emitter never calls its \<open>next\<close>.
\<close>

theorem dispose_is_safe_and_final_when_registered_once:
  "(r \<notin> set (store s a) \<longrightarrow> dispose (TSubscription a r) s = s)
   \<and> (complete \<Gamma> e s = (Normal, s') \<longrightarrow> dispose (TSubscription (ObserversOf e) r) s' = s')
   \<and> (count_list (store s (ObserversOf e)) r \<le> 1 \<longrightarrow>
        r \<notin> set (store (dispose (TSubscription (ObserversOf e) r) s) (ObserversOf e))
        \<and> dispose (TSubscription (ObserversOf e) r) (dispose (TSubscription (ObserversOf e) r) s)
            = dispose (TSubscription (ObserversOf e) r) s
        \<and> (publish \<Gamma> e v (dispose (TSubscription (ObserversOf e) r) s) = (out, s'')
             \<longrightarrow> (\<exists>evs. trace s'' = trace s @ evs \<and> (\<forall>w. NextCalled r w \<notin> set evs))))"
proof (intro conjI impI)
  assume "r \<notin> set (store s a)"
  then show "dispose (TSubscription a r) s = s" by (rule dispose_absent)
next
  assume "complete \<Gamma> e s = (Normal, s')"
  from complete_clears [OF this] have "r \<notin> set (store s' (ObserversOf e))" by simp
  then show "dispose (TSubscription (ObserversOf e) r) s' = s'" by (rule dispose_absent)
next
  let ?s1 = "dispose (TSubscription (ObserversOf e) r) s"
  assume once: "count_list (store s (ObserversOf e)) r \<le> 1"
  from remove1_registered_once [OF once]
  show absent: "r \<notin> set (store ?s1 (ObserversOf e))"
    by (simp add: dispose_store_TSubscription del: dispose.simps)
  from absent show "dispose (TSubscription (ObserversOf e) r) ?s1 = ?s1"
    by (rule dispose_absent)
  assume "publish \<Gamma> e v ?s1 = (out, s'')"
  then have "for_of_observers \<Gamma> e (CallNext v) 0 ?s1 = (out, s'')" by (simp add: publish_def)
  from for_of_absent_not_called [OF absent this]
  show "\<exists>evs. trace s'' = trace s @ evs \<and> (\<forall>w. NextCalled r w \<notin> set evs)"
    by (auto simp del: dispose.simps)
qed

theorem dispose_is_safe_and_final_witness:
  "dispose (TSubscription (MediatorsOf 0) 1)
      (push (ObserversOf 0) 2 (push (ObserversOf 0) 1 (init :: nat state)))
     = push (ObserversOf 0) 2 (push (ObserversOf 0) 1 init)
   \<and> complete (\<lambda>r. \<lparr>cls = TObserver, next_hook = Returns, complete_hook = Returns\<rparr>) 0
        (push (ObserversOf 0) 2 (push (ObserversOf 0) 1 (init :: nat state)))
      = (Normal, init\<lparr>trace := [CompleteCalled 1, CompleteCalled 2]\<rparr>)
   \<and> dispose (TSubscription (ObserversOf 0) 1) (init\<lparr>trace := [CompleteCalled 1, CompleteCalled 2]\<rparr>)
      = (init\<lparr>trace := [CompleteCalled 1, CompleteCalled 2]\<rparr> :: nat state)
   \<and> store (dispose (TSubscription (ObserversOf 0) 1)
          (push (ObserversOf 0) 2 (push (ObserversOf 0) 1 (init :: nat state)))) (ObserversOf 0) = [2]
   \<and> publish (\<lambda>r. \<lparr>cls = TObserver, next_hook = Returns, complete_hook = Returns\<rparr>) 0 5
        (dispose (TSubscription (ObserversOf 0) 1)
          (push (ObserversOf 0) 2 (push (ObserversOf 0) 1 (init :: nat state))))
      = (Normal, (push (ObserversOf 0) 2 init)\<lparr>trace := [NextCalled 2 5]\<rparr>)"
  using dispose_is_safe_and_final_when_registered_once
    [where r = 1 and a = "MediatorsOf 0" and e = 0 and v = 5 and out = Normal
       and s = "push (ObserversOf 0) 2 (push (ObserversOf 0) 1 (init :: nat state))"
       and \<Gamma> = "\<lambda>r. \<lparr>cls = TObserver, next_hook = Returns, complete_hook = Returns\<rparr>"
       and s' = "init\<lparr>trace := [CompleteCalled 1, CompleteCalled 2]\<rparr>"
       and s'' = "(push (ObserversOf 0) 2 init)\<lparr>trace := [NextCalled 2 5]\<rparr>"]
  by (simp add: init_def push_def complete_def publish_def for_of_observers.simps notify_def
      indexOf_def splice1_def fun_eq_iff)

text \<open>
  C6 (as stated) fails: \<open>TBaseObservable.subscribe\<close> appends without looking, so receiver
  1 can be registered twice with emitter 0. After the first subscription is disposed one
  entry remains: a later \<open>publish\<close> still calls \<open>next\<close> on receiver 1, and a second
  \<open>dispose()\<close> of the same subscription is not a no-op (it removes the other entry).
\<close>

theorem dispose_first_occurrence_only_counterexample:
  "(let (d1, s1) = observable_subscribe 0 1 (init :: nat state);
        (d2, s2) = observable_subscribe 0 1 s1;
        s3 = dispose d1 s2
    in publish (\<lambda>r. \<lparr>cls = TObserver, next_hook = Returns, complete_hook = Returns\<rparr>) 0 5 s3
         = (Normal, s3\<lparr>trace := [NextCalled 1 5]\<rparr>)
       \<and> store s3 (ObserversOf 0) = [1]
       \<and> store (dispose d1 s3) (ObserversOf 0) = [])"
  by (simp add: observable_subscribe_def init_def push_def publish_def for_of_observers.simps
      notify_def indexOf_def splice1_def)

section \<open>Subscribing to a mediator\<close>

lemma store_push: "store (push a x s) = (store s)(a := store s a @ [x])"
  by (simp add: push_def)

lemma trace_push [simp]: "trace (push a x s) = trace s"
  by (simp add: push_def)

lemma participant_subscribe_result:
  assumes "cls (\<Gamma> p) = TParticipant i ts"
  shows "participant_subscribe (Suc (Suc (Suc n))) \<Gamma> p m s
     = Some (TSubscription (MediatorsOf p) m,
         if m \<in> set (store s (MediatorsOf p)) then s
         else if p \<in> set (store s (ObserversOf m)) then push (MediatorsOf p) m s
         else push (ObserversOf m) p (push (MediatorsOf p) m s))"
  using assms by (simp add: store_push Let_def)

lemma mediator_subscribe_participant_result:
  assumes "cls (\<Gamma> p) = TParticipant i ts"
  shows "mediator_subscribe (Suc (Suc (Suc (Suc n)))) \<Gamma> m p s
     = Some (if p \<in> set (store s (ObserversOf m))
             then Composite (TSubscription (ObserversOf m) p) (TSubscription (MediatorsOf p) m)
             else TSubscription (MediatorsOf p) m,
         let s1 = (if p \<in> set (store s (ObserversOf m)) then s else push (ObserversOf m) p s)
         in if m \<in> set (store s (MediatorsOf p)) then s1 else push (MediatorsOf p) m s1)"
  using assms by (simp add: store_push Let_def)

lemma mediator_subscribe_plain_result:
  assumes "\<not> has_subscribe_and_publish (cls (\<Gamma> r))"
  shows "mediator_subscribe (Suc n) \<Gamma> m r s
     = Some (TSubscription (ObserversOf m) r,
         if r \<in> set (store s (ObserversOf m)) then s else push (ObserversOf m) r s)"
  using assms by (simp add: Let_def)

lemma mediator_subscribe_observers:
  assumes "cls (\<Gamma> r) \<noteq> TBaseMediator" and "4 \<le> n"
  shows "\<exists>d s1. mediator_subscribe n \<Gamma> m r s = Some (d, s1)
     \<and> store s1 (ObserversOf m)
         = (if r \<in> set (store s (ObserversOf m)) then store s (ObserversOf m)
            else store s (ObserversOf m) @ [r])
     \<and> trace s1 = trace s"
proof -
  from assms(2) have "n = Suc (Suc (Suc (Suc (n - 4))))" by arith
  then obtain k where n: "n = Suc (Suc (Suc (Suc k)))" ..
  show ?thesis
  proof (cases "has_subscribe_and_publish (cls (\<Gamma> r))")
    case False
    have "mediator_subscribe n \<Gamma> m r s
        = Some (TSubscription (ObserversOf m) r,
            if r \<in> set (store s (ObserversOf m)) then s else push (ObserversOf m) r s)"
      unfolding n by (rule mediator_subscribe_plain_result [where \<Gamma> = \<Gamma> and r = r, OF False])
    then show ?thesis
      by (simp add: store_push del: mediator_subscribe.simps)
  next
    case True
    with assms(1) obtain i ts where "cls (\<Gamma> r) = TParticipant i ts"
      by (cases "cls (\<Gamma> r)") simp_all
    then have "mediator_subscribe n \<Gamma> m r s
        = Some (if r \<in> set (store s (ObserversOf m))
             then Composite (TSubscription (ObserversOf m) r) (TSubscription (MediatorsOf r) m)
             else TSubscription (MediatorsOf r) m,
         let s1 = (if r \<in> set (store s (ObserversOf m)) then s else push (ObserversOf m) r s)
         in if m \<in> set (store s (MediatorsOf r)) then s1 else push (MediatorsOf r) m s1)"
      unfolding n by (rule mediator_subscribe_participant_result [where \<Gamma> = \<Gamma> and p = r])
    then show ?thesis
      by (simp add: store_push Let_def del: mediator_subscribe.simps)
  qed
qed

lemma count_list_next_calls:
  "count_list (map (\<lambda>q. NextCalled q v) (filter P xs)) (NextCalled r v)
     = (if P r then count_list xs r else 0)"
  by (induction xs) auto

text \<open>
  The part of C4 that the code does provide. For a receiver that is not itself a
  mediator and is registered at most once with mediator \<open>m\<close> (in particular not at
  all), two calls of \<open>m.subscribe(r)\<close> both return and leave exactly one entry for \<open>r\<close>
  in the collection of \<open>m\<close>; when the receivers that a broadcast calls return normally
  without touching the collection, \<open>m.next\<close> then calls \<open>r.next\<close> once if \<open>r\<close> is
  eligible for the message and not at all otherwise.
\<close>

lemma mediator_subscribe_twice_one_entry:
  fixes s :: "(topic \<times> 'p) state"
  assumes "cls (\<Gamma> r) \<noteq> TBaseMediator" and "count_list (store s (ObserversOf m)) r \<le> 1"
    and "4 \<le> n"
  shows "\<exists>d1 s1 d2 s2.
      mediator_subscribe n \<Gamma> m r s = Some (d1, s1)
    \<and> mediator_subscribe n \<Gamma> m r s1 = Some (d2, s2)
    \<and> count_list (store s2 (ObserversOf m)) r = 1
    \<and> ((\<forall>q\<in>set (store s2 (ObserversOf m)).
            receives (cls (\<Gamma> q)) sender topic \<longrightarrow> next_hook (\<Gamma> q) = Returns)
         \<longrightarrow> (\<exists>evs. mediator_next \<Gamma> m (sender, topic, message) s2
                    = (Normal,
                       s2\<lparr>trace := trace s2 @ MediatorNextCalled m sender (topic, message) # evs\<rparr>)
                \<and> count_list evs (NextCalled r (topic, message))
                    = (if receives (cls (\<Gamma> r)) sender topic then 1 else 0)))"
proof -
  let ?xs = "store s (ObserversOf m)"
  let ?ys = "if r \<in> set ?xs then ?xs else ?xs @ [r]"
  from mediator_subscribe_observers [where \<Gamma> = \<Gamma> and r = r and n = n and m = m and s = s, OF assms(1,3)]
  obtain d1 s1 where first: "mediator_subscribe n \<Gamma> m r s = Some (d1, s1)"
    and st1: "store s1 (ObserversOf m) = ?ys" by auto
  from mediator_subscribe_observers [where \<Gamma> = \<Gamma> and r = r and n = n and m = m and s = s1, OF assms(1,3)]
  obtain d2 s2 where second: "mediator_subscribe n \<Gamma> m r s1 = Some (d2, s2)"
    and st2': "store s2 (ObserversOf m)
         = (if r \<in> set (store s1 (ObserversOf m)) then store s1 (ObserversOf m)
            else store s1 (ObserversOf m) @ [r])" by auto
  from st1 st2' have st2: "store s2 (ObserversOf m) = ?ys" by (simp split: if_splits)
  have once: "count_list ?ys r = 1"
  proof (cases "r \<in> set ?xs")
    case True
    then have "count_list ?xs r \<noteq> 0" by (simp add: count_list_0_iff)
    with assms(2) True show ?thesis by simp
  next
    case False
    then have "count_list ?xs r = 0" by (simp add: count_list_0_iff)
    with False show ?thesis by simp
  qed
  have bc: "\<exists>evs. mediator_next \<Gamma> m (sender, topic, message) s2
                    = (Normal,
                       s2\<lparr>trace := trace s2 @ MediatorNextCalled m sender (topic, message) # evs\<rparr>)
                \<and> count_list evs (NextCalled r (topic, message))
                    = (if receives (cls (\<Gamma> r)) sender topic then 1 else 0)"
    if h: "\<forall>q\<in>set (store s2 (ObserversOf m)).
            receives (cls (\<Gamma> q)) sender topic \<longrightarrow> next_hook (\<Gamma> q) = Returns"
  proof -
    let ?evs = "map (\<lambda>q. NextCalled q (topic, message))
               (filter (\<lambda>q. receives (cls (\<Gamma> q)) sender topic) (store s2 (ObserversOf m)))"
    have "count_list ?evs (NextCalled r (topic, message))
        = (if receives (cls (\<Gamma> r)) sender topic then 1 else 0)"
      using once by (simp only: count_list_next_calls st2)
    with mediator_next_passive [OF h, of message] show ?thesis by blast
  qed
  from first second once st2 bc show ?thesis by (simp del: mediator_subscribe.simps)
qed

text \<open>
  C4 (the code at the failing input). Receiver 1 subscribes to mediator 0, then receiver
  2 subscribes twice; both are plain observers, and the \<open>next\<close> of receiver 1 disposes
  the subscription that \<open>subscribe\<close> returned for it. The collection holds one entry for
  receiver 2, but a broadcast through \<open>mediator.next\<close> calls \<open>next\<close> on receiver 1 only:
  receiver 2, eligible for every message, is called zero times, not once.
\<close>

theorem broadcast_skips_receiver_subscribed_twice:
  "mediator_subscribe 1
     (\<lambda>r. \<lparr>cls = TObserver,
           next_hook = (if r = 1 then Disposes (TSubscription (ObserversOf 0) 1) else Returns),
           complete_hook = Returns\<rparr>)
     0 1 (init :: (topic \<times> 'p) state)
     = Some (TSubscription (ObserversOf 0) 1, push (ObserversOf 0) 1 init)
   \<and> mediator_subscribe 1
     (\<lambda>r. \<lparr>cls = TObserver,
           next_hook = (if r = 1 then Disposes (TSubscription (ObserversOf 0) 1) else Returns),
           complete_hook = Returns\<rparr>)
     0 2 (push (ObserversOf 0) 1 (init :: (topic \<times> 'p) state))
     = Some (TSubscription (ObserversOf 0) 2, push (ObserversOf 0) 2 (push (ObserversOf 0) 1 init))
   \<and> mediator_subscribe 1
     (\<lambda>r. \<lparr>cls = TObserver,
           next_hook = (if r = 1 then Disposes (TSubscription (ObserversOf 0) 1) else Returns),
           complete_hook = Returns\<rparr>)
     0 2 (push (ObserversOf 0) 2 (push (ObserversOf 0) 1 (init :: (topic \<times> 'p) state)))
     = Some (TSubscription (ObserversOf 0) 2, push (ObserversOf 0) 2 (push (ObserversOf 0) 1 init))
   \<and> store (push (ObserversOf 0) 2 (push (ObserversOf 0) 1 (init :: (topic \<times> 'p) state)))
       (ObserversOf 0) = [1, 2]
   \<and> mediator_next
     (\<lambda>r. \<lparr>cls = TObserver,
           next_hook = (if r = 1 then Disposes (TSubscription (ObserversOf 0) 1) else Returns),
           complete_hook = Returns\<rparr>)
     0 (9, ''A'', v)
     (push (ObserversOf 0) 2 (push (ObserversOf 0) 1 init))
     = (Normal,
        \<lparr>store = (\<lambda>a. []) (ObserversOf 0 := [2]), subscription = (\<lambda>r. None),
         trace = [MediatorNextCalled 0 9 (''A'', v), NextCalled 1 (''A'', v)]\<rparr>)"
  by (simp add: init_def push_def mediator_next_def route_def notify_def indexOf_def
      splice1_def Let_def numeral_eq_Suc)

section \<open>The subscription a participant returns\<close>

lemma forEach_invariant:
  assumes step: "\<And>q s out s'. I s \<Longrightarrow> q \<in> set (store s a) \<Longrightarrow> f q s = (out, s') \<Longrightarrow>
      I s' \<and> (\<exists>evs. trace s' = trace s @ evs \<and> (\<forall>ev\<in>set evs. P ev))"
  shows "I s \<Longrightarrow> forEach a f k n s = (out, s') \<Longrightarrow>
      I s' \<and> (\<exists>evs. trace s' = trace s @ evs \<and> (\<forall>ev\<in>set evs. P ev))"
proof (induction n arbitrary: k s)
  case 0
  then show ?case by simp
next
  case (Suc n)
  show ?case
  proof (cases "k < length (store s a)")
    case False
    with Suc.prems have "forEach a f (Suc k) n s = (out, s')" by simp
    from Suc.IH [OF Suc.prems(1) this] show ?thesis .
  next
    case True
    let ?q = "store s a ! k"
    obtain o1 s1 where f: "f ?q s = (o1, s1)" by (cases "f ?q s")
    from True have "?q \<in> set (store s a)" by simp
    from step [OF Suc.prems(1) this f]
    obtain evs1 where I1: "I s1" and t1: "trace s1 = trace s @ evs1" and P1: "\<forall>ev\<in>set evs1. P ev"
      by auto
    show ?thesis
    proof (cases o1)
      case (Raised x)
      with True f Suc.prems have "s' = s1" by simp
      with I1 t1 P1 show ?thesis by auto
    next
      case Normal
      with True f Suc.prems have "forEach a f (Suc k) n s1 = (out, s')" by simp
      from Suc.IH [OF I1 this]
      obtain evs where "I s'" "trace s' = trace s1 @ evs" "\<forall>ev\<in>set evs. P ev" by auto
      with t1 P1 show ?thesis by auto
    qed
  qed
qed

lemma mediator_next_other_mediator:
  assumes "m' \<noteq> m" and "m \<notin> set (store s (MediatorsOf p))"
    and "mediator_next \<Gamma> m' (sender, topic, message) s = (out, s')"
  shows "m \<notin> set (store s' (MediatorsOf p))
     \<and> (\<exists>evs. trace s' = trace s @ evs \<and> (\<forall>ev\<in>set evs. \<forall>q w. ev \<noteq> MediatorNextCalled m q w))"
proof -
  let ?s0 = "s\<lparr>trace := trace s @ [MediatorNextCalled m' sender (topic, message)]\<rparr>"
  have step: "m \<notin> set (store t' (MediatorsOf p))
      \<and> (\<exists>evs. trace t' = trace t @ evs \<and> (\<forall>ev\<in>set evs. \<forall>q w. ev \<noteq> MediatorNextCalled m q w))"
    if "m \<notin> set (store t (MediatorsOf p))" and "route \<Gamma> sender topic message q t = (o1, t')"
    for q t o1 t'
  proof (cases "receives (cls (\<Gamma> q)) sender topic")
    case False
    with that route_receives [of \<Gamma> sender topic message q t] show ?thesis by simp
  next
    case True
    with that route_receives [of \<Gamma> sender topic message q t]
    have n: "notify \<Gamma> (CallNext (topic, message)) q t = (o1, t')" by simp
    from notify_store [OF n, of "MediatorsOf p"] notify_trace [OF n] that(1)
    show ?thesis by auto
  qed
  from assms(3) have fe: "forEach (ObserversOf m') (route \<Gamma> sender topic message) 0
      (length (store s (ObserversOf m'))) ?s0 = (out, s')"
    by (simp add: mediator_next_def)
  from assms(2) have I0: "m \<notin> set (store ?s0 (MediatorsOf p))" by simp
  have "m \<notin> set (store s' (MediatorsOf p))
      \<and> (\<exists>evs. trace s' = trace ?s0 @ evs \<and> (\<forall>ev\<in>set evs. \<forall>q w. ev \<noteq> MediatorNextCalled m q w))"
  proof (rule forEach_invariant [where I = "\<lambda>t. m \<notin> set (store t (MediatorsOf p))"
      and P = "\<lambda>ev. \<forall>q w. ev \<noteq> MediatorNextCalled m q w" and a = "ObserversOf m'"
      and f = "route \<Gamma> sender topic message"])
    fix q t o1 t'
    assume "m \<notin> set (store t (MediatorsOf p))" and "route \<Gamma> sender topic message q t = (o1, t')"
    then show "m \<notin> set (store t' (MediatorsOf p))
      \<and> (\<exists>evs. trace t' = trace t @ evs \<and> (\<forall>ev\<in>set evs. \<forall>q w. ev \<noteq> MediatorNextCalled m q w))"
      by (rule step)
  next
    show "m \<notin> set (store ?s0 (MediatorsOf p))" by (rule I0)
  next
    show "forEach (ObserversOf m') (route \<Gamma> sender topic message) 0
      (length (store s (ObserversOf m'))) ?s0 = (out, s')" by (rule fe)
  qed
  then obtain evs where "m \<notin> set (store s' (MediatorsOf p))" "trace s' = trace ?s0 @ evs"
    "\<forall>ev\<in>set evs. \<forall>q w. ev \<noteq> MediatorNextCalled m q w" by auto
  with assms(1) show ?thesis by auto
qed

lemma participant_publish_skips_untracked:
  assumes "m \<notin> set (store s (MediatorsOf p))"
    and "participant_publish \<Gamma> p message s = (out, s')"
  shows "\<exists>evs. trace s' = trace s @ evs \<and> (\<forall>q w. MediatorNextCalled m q w \<notin> set evs)"
proof (cases "participantId_of (cls (\<Gamma> p))")
  case None
  with assms(2) show ?thesis by (simp add: participant_publish_def)
next
  case (Some i)
  with assms(2) have fe: "forEach (MediatorsOf p)
      (\<lambda>mediator. mediator_next \<Gamma> mediator (i, fst message, snd message)) 0
      (length (store s (MediatorsOf p))) s = (out, s')"
    by (simp add: participant_publish_def)
  have step: "m \<notin> set (store t' (MediatorsOf p))
      \<and> (\<exists>evs. trace t' = trace t @ evs \<and> (\<forall>ev\<in>set evs. \<forall>q w. ev \<noteq> MediatorNextCalled m q w))"
    if "m \<notin> set (store t (MediatorsOf p))" and "m' \<in> set (store t (MediatorsOf p))"
      and "mediator_next \<Gamma> m' (i, fst message, snd message) t = (o1, t')"
    for m' t o1 t'
  proof -
    from that(1,2) have "m' \<noteq> m" by auto
    from mediator_next_other_mediator [OF this that(1,3)] show ?thesis .
  qed
  have "m \<notin> set (store s' (MediatorsOf p))
      \<and> (\<exists>evs. trace s' = trace s @ evs \<and> (\<forall>ev\<in>set evs. \<forall>q w. ev \<noteq> MediatorNextCalled m q w))"
  proof (rule forEach_invariant [where I = "\<lambda>t. m \<notin> set (store t (MediatorsOf p))"
      and P = "\<lambda>ev. \<forall>q w. ev \<noteq> MediatorNextCalled m q w" and a = "MediatorsOf p"
      and f = "\<lambda>mediator. mediator_next \<Gamma> mediator (i, fst message, snd message)"])
    fix m' t o1 t'
    assume "m \<notin> set (store t (MediatorsOf p))" and "m' \<in> set (store t (MediatorsOf p))"
      and "mediator_next \<Gamma> m' (i, fst message, snd message) t = (o1, t')"
    then show "m \<notin> set (store t' (MediatorsOf p))
      \<and> (\<exists>evs. trace t' = trace t @ evs \<and> (\<forall>ev\<in>set evs. \<forall>q w. ev \<noteq> MediatorNextCalled m q w))"
      by (rule step)
  next
    show "m \<notin> set (store s (MediatorsOf p))" by (rule assms(1))
  next
    show "forEach (MediatorsOf p)
      (\<lambda>mediator. mediator_next \<Gamma> mediator (i, fst message, snd message)) 0
      (length (store s (MediatorsOf p))) s = (out, s')" by (rule fe)
  qed
  then show ?thesis by blast
qed

lemma detach_outgoing_link:
  fixes s1 :: "(topic \<times> 'p) state"
  assumes "count_list (store s1 (MediatorsOf p)) m \<le> 1"
  shows "m \<notin> set (store (dispose (TSubscription (MediatorsOf p) m) s1) (MediatorsOf p))
     \<and> (\<forall>e. store (dispose (TSubscription (MediatorsOf p) m) s1) (ObserversOf e)
            = store s1 (ObserversOf e))
     \<and> (\<forall>message out s3.
          participant_publish \<Gamma> p message (dispose (TSubscription (MediatorsOf p) m) s1) = (out, s3)
          \<longrightarrow> (\<exists>evs. trace s3 = trace s1 @ evs \<and> (\<forall>q w. MediatorNextCalled m q w \<notin> set evs)))"
proof -
  let ?s2 = "dispose (TSubscription (MediatorsOf p) m) s1"
  from remove1_registered_once [OF assms]
  have absent: "m \<notin> set (store ?s2 (MediatorsOf p))"
    by (simp add: dispose_store_TSubscription del: dispose.simps)
  have frame: "\<forall>e. store ?s2 (ObserversOf e) = store s1 (ObserversOf e)"
    by (simp add: dispose_store_TSubscription del: dispose.simps)
  have pub: "\<exists>evs. trace s3 = trace s1 @ evs \<and> (\<forall>q w. MediatorNextCalled m q w \<notin> set evs)"
    if "participant_publish \<Gamma> p message ?s2 = (out, s3)" for message out s3
    using participant_publish_skips_untracked [OF absent that]
    by (simp del: dispose.simps)
  from absent frame pub show ?thesis by blast
qed

text \<open>
  C8. \<open>participant.subscribe(mediator)\<close> returns a subscription over the participant's
  own \<open>mediators\<close> list, and \<open>mediator.subscribe(participant)\<close> returns the same
  disposable when the participant is newly added. After either call the mediator is in
  the participant's list; disposing the disposable removes it from that list, leaves
  every \<open>observers\<close> collection as it was (the participant stays registered with the
  mediator), and a later \<open>participant.publish\<close> makes no call of that mediator's \<open>next\<close>.
  The participant's list is taken to hold the mediator at most once beforehand, which
  \<open>subscribe\<close>, the only place that pushes to it, maintains.
\<close>

theorem participant_subscription_detaches_outgoing_link_only:
  fixes s :: "(topic \<times> 'p) state"
  assumes "cls (\<Gamma> p) = TParticipant i ts" and "count_list (store s (MediatorsOf p)) m \<le> 1"
    and "3 \<le> n"
  shows "(\<exists>s1. participant_subscribe n \<Gamma> p m s = Some (TSubscription (MediatorsOf p) m, s1))
     \<and> (p \<notin> set (store s (ObserversOf m)) \<longrightarrow>
          (\<exists>s1. mediator_subscribe (Suc n) \<Gamma> m p s = Some (TSubscription (MediatorsOf p) m, s1)))
     \<and> (\<forall>d s1. participant_subscribe n \<Gamma> p m s = Some (d, s1)
                \<or> (p \<notin> set (store s (ObserversOf m))
                    \<and> mediator_subscribe (Suc n) \<Gamma> m p s = Some (d, s1)) \<longrightarrow>
          m \<in> set (store s1 (MediatorsOf p))
          \<and> m \<notin> set (store (dispose d s1) (MediatorsOf p))
          \<and> (\<forall>e. store (dispose d s1) (ObserversOf e) = store s1 (ObserversOf e))
          \<and> (\<forall>message out s3.
                participant_publish \<Gamma> p message (dispose d s1) = (out, s3)
                \<longrightarrow> (\<exists>evs. trace s3 = trace s1 @ evs
                      \<and> (\<forall>q w. MediatorNextCalled m q w \<notin> set evs))))"
proof -
  let ?ms = "store s (MediatorsOf p)"
  let ?sub = "TSubscription (MediatorsOf p) m"
  let ?S1 = "if m \<in> set ?ms then s
         else if p \<in> set (store s (ObserversOf m)) then push (MediatorsOf p) m s
         else push (ObserversOf m) p (push (MediatorsOf p) m s)"
  let ?S2 = "if m \<in> set ?ms then push (ObserversOf m) p s
         else push (MediatorsOf p) m (push (ObserversOf m) p s)"
  from assms(3) have "n = Suc (Suc (Suc (n - 3)))" by arith
  then obtain k where n: "n = Suc (Suc (Suc k))" ..
  have ps: "participant_subscribe n \<Gamma> p m s = Some (?sub, ?S1)"
    unfolding n by (rule participant_subscribe_result [where \<Gamma> = \<Gamma> and p = p, OF assms(1)])
  have ms: "mediator_subscribe (Suc n) \<Gamma> m p s = Some (?sub, ?S2)"
    if "p \<notin> set (store s (ObserversOf m))"
    using that mediator_subscribe_participant_result
      [where \<Gamma> = \<Gamma> and p = p and m = m and s = s and n = k, OF assms(1)]
    unfolding n by (simp del: mediator_subscribe.simps)
  have once: "count_list (if m \<in> set ?ms then ?ms else ?ms @ [m]) m \<le> 1
      \<and> m \<in> set (if m \<in> set ?ms then ?ms else ?ms @ [m])"
    using assms(2) by (simp add: count_list_0_iff)
  have st1: "store ?S1 (MediatorsOf p) = (if m \<in> set ?ms then ?ms else ?ms @ [m])"
    by (simp add: store_push)
  have st2: "store ?S2 (MediatorsOf p) = (if m \<in> set ?ms then ?ms else ?ms @ [m])"
    by (simp add: store_push)
  have props: "m \<in> set (store s1 (MediatorsOf p))
          \<and> m \<notin> set (store (dispose d s1) (MediatorsOf p))
          \<and> (\<forall>e. store (dispose d s1) (ObserversOf e) = store s1 (ObserversOf e))
          \<and> (\<forall>message out s3.
                participant_publish \<Gamma> p message (dispose d s1) = (out, s3)
                \<longrightarrow> (\<exists>evs. trace s3 = trace s1 @ evs
                      \<and> (\<forall>q w. MediatorNextCalled m q w \<notin> set evs)))"
    if "participant_subscribe n \<Gamma> p m s = Some (d, s1)
                \<or> (p \<notin> set (store s (ObserversOf m))
                    \<and> mediator_subscribe (Suc n) \<Gamma> m p s = Some (d, s1))" for d s1
  proof -
    from that ps ms have d: "d = ?sub" and s1: "s1 = ?S1 \<or> s1 = ?S2" by auto
    from s1 st1 st2 once have c: "count_list (store s1 (MediatorsOf p)) m \<le> 1"
      and mem: "m \<in> set (store s1 (MediatorsOf p))" by auto
    from detach_outgoing_link [OF c, of \<Gamma>] mem show ?thesis unfolding d by blast
  qed
  from ps ms props show ?thesis by blast
qed

theorem participant_subscription_detaches_witness:
  "participant_subscribe 3
     (\<lambda>r. \<lparr>cls = (if r = 0 then TBaseMediator else TParticipant 7 [''A'']),
           next_hook = Returns, complete_hook = Returns\<rparr>)
     1 0 (init :: (topic \<times> nat) state)
     = Some (TSubscription (MediatorsOf 1) 0, push (ObserversOf 0) 1 (push (MediatorsOf 1) 0 init))
   \<and> mediator_subscribe 4
     (\<lambda>r. \<lparr>cls = (if r = 0 then TBaseMediator else TParticipant 7 [''A'']),
           next_hook = Returns, complete_hook = Returns\<rparr>)
     0 1 (init :: (topic \<times> nat) state)
     = Some (TSubscription (MediatorsOf 1) 0, push (MediatorsOf 1) 0 (push (ObserversOf 0) 1 init))
   \<and> store (dispose (TSubscription (MediatorsOf 1) 0)
         (push (ObserversOf 0) 1 (push (MediatorsOf 1) 0 (init :: (topic \<times> nat) state))))
       (MediatorsOf 1) = []
   \<and> store (dispose (TSubscription (MediatorsOf 1) 0)
         (push (ObserversOf 0) 1 (push (MediatorsOf 1) 0 (init :: (topic \<times> nat) state))))
       (ObserversOf 0) = [1]
   \<and> participant_publish
     (\<lambda>r. \<lparr>cls = (if r = 0 then TBaseMediator else TParticipant 7 [''A'']),
           next_hook = Returns, complete_hook = Returns\<rparr>)
     1 (''A'', 5)
     (dispose (TSubscription (MediatorsOf 1) 0)
         (push (ObserversOf 0) 1 (push (MediatorsOf 1) 0 (init :: (topic \<times> nat) state))))
     = (Normal, push (ObserversOf 0) 1 init)"
  using participant_subscription_detaches_outgoing_link_only
    [where \<Gamma> = "\<lambda>r. \<lparr>cls = (if r = 0 then TBaseMediator else TParticipant 7 [''A'']),
           next_hook = Returns, complete_hook = Returns\<rparr>"
       and p = 1 and m = 0 and n = 3 and i = 7 and ts = "[''A'']"
       and s = "init :: (topic \<times> nat) state"]
  by (simp add: numeral_eq_Suc init_def push_def participant_publish_def indexOf_def
      splice1_def Let_def fun_eq_iff)

section \<open>Completion when no receiver touches the collection\<close>

text \<open>
  The part of C5 that the code does provide. When every registered receiver's
  \<open>complete\<close> returns normally without touching the collection, \<open>complete()\<close> calls
  each of them once, in insertion order, and clears the collection. Whenever
  \<open>complete()\<close> returns normally, every subscription over that collection reports
  disposed and a later \<open>publish\<close> calls nobody.
\<close>

lemma complete_passive:
  assumes "\<forall>q\<in>set (store s (ObserversOf e)). complete_hook (\<Gamma> q) = Returns"
  shows "complete \<Gamma> e s
     = (Normal, s\<lparr>trace := trace s @ map CompleteCalled (store s (ObserversOf e)),
                  store := (store s)(ObserversOf e := [])\<rparr>)"
proof -
  have st: "store s (ObserversOf e) = [] @ store s (ObserversOf e)" by simp
  from assms have h: "\<forall>q\<in>set (store s (ObserversOf e)). hook_of \<Gamma> CallComplete q = Returns"
    by simp
  have "map (event_of CallComplete) (store s (ObserversOf e))
      = map CompleteCalled (store s (ObserversOf e))"
    by (rule map_cong) simp_all
  with for_of_passive [OF st h] show ?thesis
    by (simp add: complete_def)
qed

lemma after_complete:
  assumes "complete \<Gamma> e s = (Normal, s')"
  shows "isDisposed s' (TSubscription (ObserversOf e) r) \<and> publish \<Gamma>' e v s' = (Normal, s')"
  using complete_clears [OF assms]
  by (simp add: publish_def for_of_observers.simps)

end
